theory Spec2Isabelle
  imports Main "HOL-Library.Sublist" "HOL-Library.AList"
begin

section \<open>Python string primitives used by the TOON codec\<close>

text \<open>
  The codec of \<^verbatim>\<open>src/formats/converters.py\<close> works on Python \<^verbatim>\<open>str\<close> values.
  A Python string is a sequence of code points; here a \<^typ>\<open>char\<close> stands for one code
  point in the range 0..255 (ASCII and Latin-1), and \<^typ>\<open>string\<close> for a sequence of
  them. The character classes below are Python's, restricted to that range. Code points
  above 255 are not represented. Interpreter resource limits (recursion depth, the
  configurable cap on the number of digits of an integer conversion, memory) are not
  modelled either.
\<close>

definition NL :: char where
  "NL = CHR 0x0A"

text \<open>\<^verbatim>\<open>str.isspace\<close> on one code point: what \<^verbatim>\<open>strip()\<close> and \<^verbatim>\<open>lstrip()\<close> remove.\<close>

definition isspace :: "char \<Rightarrow> bool" where
  "isspace c = (c \<in> set [CHR 0x09, CHR 0x0A, CHR 0x0B, CHR 0x0C, CHR 0x0D,
                          CHR 0x1C, CHR 0x1D, CHR 0x1E, CHR 0x1F, CHR 0x20,
                          CHR 0x85, CHR 0xA0])"

definition lstrip :: "string \<Rightarrow> string" where
  "lstrip s = dropWhile isspace s"

definition rstrip :: "string \<Rightarrow> string" where
  "rstrip s = rev (dropWhile isspace (rev s))"

definition strip :: "string \<Rightarrow> string" where
  "strip s = lstrip (rstrip s)"

text \<open>
  \<^verbatim>\<open>str.isdigit\<close> on one code point. Besides the ten decimal digits Python accepts
  the superscript digits U+00B2, U+00B3 and U+00B9 (Numeric_Type=Digit).
\<close>

definition isdigit :: "char \<Rightarrow> bool" where
  "isdigit c = (c \<in> set ''0123456789'' \<or> c \<in> set [CHR 0xB2, CHR 0xB3, CHR 0xB9])"

text \<open>\<^verbatim>\<open>s.isdigit()\<close>: non-empty and every character a digit.\<close>

definition isdigit_str :: "string \<Rightarrow> bool" where
  "isdigit_str s = (s \<noteq> [] \<and> list_all isdigit s)"

definition isdecimal :: "char \<Rightarrow> bool" where
  "isdecimal c = (c \<in> set ''0123456789'')"

definition digit_val :: "char \<Rightarrow> int" where
  "digit_val c = int (length (takeWhile (\<lambda>d. d \<noteq> c) ''0123456789''))"

datatype py_error = ValueError

text \<open>
  \<^verbatim>\<open>int(s)\<close> on the arguments that reach it, which all satisfy \<^verbatim>\<open>s.isdigit()\<close>:
  a run of decimal digits is read in base ten (leading zeros allowed); a superscript
  digit is refused with ValueError. (Signs, blanks and underscores, which \<^verbatim>\<open>int\<close>
  would also take, never pass the \<^verbatim>\<open>isdigit\<close> guard.)
\<close>

definition py_int :: "string \<Rightarrow> py_error + int" where
  "py_int s =
     (if s \<noteq> [] \<and> list_all isdecimal s
      then Inr (foldl (\<lambda>acc c. 10 * acc + digit_val c) 0 s)
      else Inl ValueError)"

text \<open>\<^verbatim>\<open>str.lower\<close>: the cased letters of ASCII and Latin-1.\<close>

definition upper_chars :: string where
  "upper_chars = ''ABCDEFGHIJKLMNOPQRSTUVWXYZ'' @
     [CHR 0xC0, CHR 0xC1, CHR 0xC2, CHR 0xC3, CHR 0xC4, CHR 0xC5, CHR 0xC6, CHR 0xC7,
      CHR 0xC8, CHR 0xC9, CHR 0xCA, CHR 0xCB, CHR 0xCC, CHR 0xCD, CHR 0xCE, CHR 0xCF,
      CHR 0xD0, CHR 0xD1, CHR 0xD2, CHR 0xD3, CHR 0xD4, CHR 0xD5, CHR 0xD6,
      CHR 0xD8, CHR 0xD9, CHR 0xDA, CHR 0xDB, CHR 0xDC, CHR 0xDD, CHR 0xDE]"

definition lower_chars :: string where
  "lower_chars = ''abcdefghijklmnopqrstuvwxyz'' @
     [CHR 0xE0, CHR 0xE1, CHR 0xE2, CHR 0xE3, CHR 0xE4, CHR 0xE5, CHR 0xE6, CHR 0xE7,
      CHR 0xE8, CHR 0xE9, CHR 0xEA, CHR 0xEB, CHR 0xEC, CHR 0xED, CHR 0xEE, CHR 0xEF,
      CHR 0xF0, CHR 0xF1, CHR 0xF2, CHR 0xF3, CHR 0xF4, CHR 0xF5, CHR 0xF6,
      CHR 0xF8, CHR 0xF9, CHR 0xFA, CHR 0xFB, CHR 0xFC, CHR 0xFD, CHR 0xFE]"

definition lower_char :: "char \<Rightarrow> char" where
  "lower_char c = (case map_of (zip upper_chars lower_chars) c of Some l \<Rightarrow> l | None \<Rightarrow> c)"

definition lower :: "string \<Rightarrow> string" where
  "lower s = map lower_char s"

text \<open>\<^verbatim>\<open>s.find(sub)\<close>: the index of the leftmost occurrence, if any.\<close>

fun find_sub :: "string \<Rightarrow> string \<Rightarrow> nat option" where
  "find_sub sub [] = (if sub = [] then Some 0 else None)"
| "find_sub sub (c # cs) =
     (if prefix sub (c # cs) then Some 0 else map_option Suc (find_sub sub cs))"

text \<open>\<^verbatim>\<open>sub in s\<close>.\<close>

definition contains :: "string \<Rightarrow> string \<Rightarrow> bool" where
  "contains sub s = (find_sub sub s \<noteq> None)"

lemma find_sub_bound:
  "find_sub sub s = Some i \<Longrightarrow> i + length sub \<le> length s"
proof (induction s arbitrary: i)
  case Nil
  then show ?case by (simp split: if_splits)
next
  case (Cons c cs)
  show ?case
  proof (cases "prefix sub (c # cs)")
    case True
    with Cons.prems have "i = 0" by simp
    with True show ?thesis by (auto dest: prefix_length_le)
  next
    case False
    with Cons.prems obtain j where "find_sub sub cs = Some j" "i = Suc j" by auto
    with Cons.IH show ?thesis by fastforce
  qed
qed

text \<open>
  \<^verbatim>\<open>s.split(sep)\<close> for a non-empty separator: cut at the leftmost occurrence and go on
  with the rest. Python raises ValueError on an empty separator; every call in the codec
  passes a non-empty literal, and the function has no equation for \<open>[]\<close>.
\<close>

function (sequential) split_str :: "string \<Rightarrow> string \<Rightarrow> string list" where
  "split_str (x # xs) s =
     (case find_sub (x # xs) s of
        None \<Rightarrow> [s]
      | Some i \<Rightarrow> take i s # split_str (x # xs) (drop (i + length (x # xs)) s))"
| "split_str [] s = undefined"
  by pat_completeness auto
termination
proof (relation "measure (\<lambda>(sep, s). length s)")
  show "wf (measure (\<lambda>(sep, s). length s))" by simp
next
  fix x xs s i
  assume "find_sub (x # xs) s = Some i"
  then have "i + length (x # xs) \<le> length s" by (rule find_sub_bound)
  then show "((x # xs, drop (i + length (x # xs)) s), (x # xs, s)) \<in> measure (\<lambda>(sep, s). length s)"
    by simp
qed

declare split_str.simps [simp del]

text \<open>\<^verbatim>\<open>s.split(sep, 1)\<close>: at most one cut, at the leftmost occurrence.\<close>

definition split_once :: "string \<Rightarrow> string \<Rightarrow> string list" where
  "split_once sep s =
     (case find_sub sep s of
        None \<Rightarrow> [s]
      | Some i \<Rightarrow> [take i s, drop (i + length sep) s])"

text \<open>\<^verbatim>\<open>sep.join(parts)\<close>.\<close>

fun join :: "string \<Rightarrow> string list \<Rightarrow> string" where
  "join sep [] = []"
| "join sep [p] = p"
| "join sep (p # q # ps) = p @ sep @ join sep (q # ps)"

text \<open>\<^verbatim>\<open>str(n)\<close> for an integer.\<close>

definition digit_char :: "nat \<Rightarrow> char" where
  "digit_char d = ''0123456789'' ! d"

fun str_nat :: "nat \<Rightarrow> string" where
  "str_nat n = (if n < 10 then [digit_char n] else str_nat (n div 10) @ [digit_char (n mod 10)])"

declare str_nat.simps [simp del]

definition str_int :: "int \<Rightarrow> string" where
  "str_int n = (if n < 0 then CHR ''-'' # str_nat (nat (- n)) else str_nat (nat n))"

section \<open>Values, records and datasets\<close>

text \<open>
  A list element is a scalar, rendered by \<^verbatim>\<open>str(v)\<close>; a field value is a string, an
  integer, a boolean, a list of scalars or a nested dict. A dict is an association list in
  insertion order; \<^verbatim>\<open>result[key] = v\<close> is \<^const>\<open>AList.update\<close>, which overwrites in
  place and appends a new key at the end, as a Python dict does.
\<close>

datatype atom = AStr string | AInt int | ABool bool

datatype val =
    VStr string
  | VInt int
  | VBool bool
  | VList "atom list"
  | VObj "(string \<times> val) list"

type_synonym pydict = "(string \<times> val) list"

type_synonym dataset = "pydict list"

fun py_str :: "atom \<Rightarrow> string" where
  "py_str (AStr s) = s"
| "py_str (AInt n) = str_int n"
| "py_str (ABool b) = (if b then ''True'' else ''False'')"

definition SEP :: string where
  "SEP = [NL, NL] @ ''--------'' @ [NL, NL]"

section \<open>The encoder: \<^verbatim>\<open>dict_to_toon\<close>\<close>

definition space :: "nat \<Rightarrow> string" where
  "space indent = concat (replicate indent ''  '')"

fun is_dict :: "val \<Rightarrow> bool" where
  "is_dict (VObj d) = True"
| "is_dict v = False"

text \<open>
  \<^verbatim>\<open>_format_value(value, indent)\<close>; \<open>format_fields\<close> is the loop over
  \<^verbatim>\<open>value.items()\<close> that fills \<^verbatim>\<open>lines\<close>.
\<close>

fun format_value :: "val \<Rightarrow> nat \<Rightarrow> string"
  and format_fields :: "(string \<times> val) list \<Rightarrow> nat \<Rightarrow> string list" where
  "format_value (VList xs) indent = ''['' @ join '', '' (map py_str xs) @ '']''"
| "format_value (VObj d) indent = join [NL] (format_fields d indent)"
| "format_value (VBool b) indent = lower (py_str (ABool b))"
| "format_value (VStr s) indent = s"
| "format_value (VInt n) indent = str_int n"
| "format_fields [] indent = []"
| "format_fields ((k, v) # rest) indent =
     (if is_dict v
      then [space indent @ ''  '' @ k @ '':'', format_value v (indent + 1)]
      else [space indent @ ''  '' @ k @ '': '' @ format_value v (indent + 1)])
     @ format_fields rest indent"

text \<open>The lines of one record block, and the block.\<close>

fun record_lines :: "pydict \<Rightarrow> string list" where
  "record_lines [] = []"
| "record_lines ((key, value) # rest) =
     (if is_dict value
      then [key @ '':'', format_value value 0]
      else [key @ '': '' @ format_value value 0])
     @ record_lines rest"

definition record_block :: "pydict \<Rightarrow> string" where
  "record_block r = join [NL] (record_lines r)"

definition dict_to_toon :: "dataset \<Rightarrow> string" where
  "dict_to_toon data = join SEP (map record_block data)"

section \<open>The decoder: \<^verbatim>\<open>toon_to_dict\<close>\<close>

text \<open>\<^verbatim>\<open>_parse_value\<close>.\<close>

definition parse_value :: "string \<Rightarrow> py_error + val" where
  "parse_value raw =
     (let value = strip raw in
      if prefix ''['' value \<and> suffix '']'' value then
        Inr (VList (map (\<lambda>item. AStr (strip item))
                        (filter (\<lambda>item. strip item \<noteq> [])
                                (split_str '', '' (butlast (tl value))))))
      else if lower value \<in> set [''true'', ''false''] then
        Inr (VBool (lower value = ''true''))
      else if isdigit_str value then
        (case py_int value of Inl e \<Rightarrow> Inl e | Inr n \<Rightarrow> Inr (VInt n))
      else Inr (VStr value))"

text \<open>\<^verbatim>\<open>len(line) - len(line.lstrip())\<close>.\<close>

definition indent_of :: "string \<Rightarrow> nat" where
  "indent_of line = length line - length (lstrip line)"

text \<open>
  The reference indent that \<^verbatim>\<open>_parse_lines(lines, start_idx)\<close> fixes on entry:
  \<^verbatim>\<open>len(lines[i]) - len(lines[i].lstrip()) if i < len(lines) else 0\<close>.
\<close>

definition entry_indent :: "string list \<Rightarrow> nat \<Rightarrow> nat" where
  "entry_indent lines i = (if i < length lines then indent_of (lines ! i) else 0)"

text \<open>
  The \<^verbatim>\<open>while\<close> loop of \<^verbatim>\<open>_parse_lines\<close>, with its variables
  \<^verbatim>\<open>current_indent\<close>, \<^verbatim>\<open>i\<close> and \<^verbatim>\<open>result\<close> as arguments. The recursive call
  \<^verbatim>\<open>_parse_lines(lines, i + 1)\<close> is the loop started at \<open>i + 1\<close> with a fresh
  reference indent and an empty result. An exception raised by \<^verbatim>\<open>_parse_value\<close>
  leaves the loop and every enclosing call.
\<close>

function parse_loop ::
  "string list \<Rightarrow> nat \<Rightarrow> nat \<Rightarrow> pydict \<Rightarrow> py_error + (pydict \<times> nat)" where
  "parse_loop lines current_indent i result =
     (if i < length lines then
        if strip (lines ! i) = [] then parse_loop lines current_indent (i + 1) result
        else if indent_of (lines ! i) < current_indent then Inr (result, i)
        else if indent_of (lines ! i) > current_indent then
          parse_loop lines current_indent (i + 1) result
        else if contains '': '' (strip (lines ! i)) then
          (case split_once '': '' (strip (lines ! i)) of
             [key, value] \<Rightarrow>
               (case parse_value value of
                  Inl e \<Rightarrow> Inl e
                | Inr v \<Rightarrow> parse_loop lines current_indent (i + 1) (AList.update key v result))
           | _ \<Rightarrow> Inl ValueError)
        else if suffix '':'' (strip (lines ! i)) then
          (case parse_loop lines (entry_indent lines (i + 1)) (i + 1) [] of
             Inl e \<Rightarrow> Inl e
           | Inr (nested, next_i) \<Rightarrow>
               parse_loop lines current_indent next_i
                 (AList.update (butlast (strip (lines ! i))) (VObj nested) result))
        else parse_loop lines current_indent (i + 1) result
      else Inr (result, i))"
  by pat_completeness auto

termination
proof -
  have parse_loop_dom_index: "i \<le> j"
    if "parse_loop_dom (lines, ci, i, res)" and "parse_loop lines ci i res = Inr (m, j)"
    for lines ci i res m j
    using that
  proof (induction lines ci i res arbitrary: m j rule: parse_loop.pinduct)
    case (1 lines ci i res)
    show ?case
    proof (cases "i < length lines")
      case False
      with "1.prems" "1.hyps" show ?thesis by (simp add: parse_loop.psimps)
    next
      case inb: True
      show ?thesis
      proof (cases "strip (lines ! i) = []")
        case True
        with inb "1.prems" "1.hyps" have "parse_loop lines ci (i + 1) res = Inr (m, j)"
          by (simp add: parse_loop.psimps)
        with "1.IH"(1)[OF inb True] show ?thesis by simp
      next
        case nb: False
        show ?thesis
        proof (cases "indent_of (lines ! i) < ci")
          case True
          with inb nb "1.prems" "1.hyps" show ?thesis by (simp add: parse_loop.psimps)
        next
          case nlt: False
          show ?thesis
          proof (cases "indent_of (lines ! i) > ci")
            case True
            with inb nb nlt "1.prems" "1.hyps" have "parse_loop lines ci (i + 1) res = Inr (m, j)"
              by (simp add: parse_loop.psimps)
            with "1.IH"(2)[OF inb nb nlt True] show ?thesis by simp
          next
            case ngt: False
            show ?thesis
            proof (cases "contains '': '' (strip (lines ! i))")
              case True
              with inb nb nlt ngt "1.prems" "1.hyps" obtain key raw v where
                sp: "split_once '': '' (strip (lines ! i)) = [key, raw]" and
                pv: "parse_value raw = Inr v" and
                rec: "parse_loop lines ci (i + 1) (AList.update key v res) = Inr (m, j)"
                by (auto simp: parse_loop.psimps split: list.splits sum.splits)
              from "1.IH"(3)[OF inb nb nlt ngt True sp refl refl pv rec] show ?thesis by simp
            next
              case nc: False
              show ?thesis
              proof (cases "suffix '':'' (strip (lines ! i))")
                case True
                with inb nb nlt ngt nc "1.prems" "1.hyps" obtain nested next_i where
                  inner: "parse_loop lines (entry_indent lines (i + 1)) (i + 1) [] = Inr (nested, next_i)" and
                  rec: "parse_loop lines ci next_i
                          (AList.update (butlast (strip (lines ! i))) (VObj nested) res) = Inr (m, j)"
                  by (auto simp: parse_loop.psimps split: sum.splits)
                from "1.IH"(4)[OF inb nb nlt ngt nc True inner] have a: "i + 1 \<le> next_i" .
                from "1.IH"(5)[OF inb nb nlt ngt nc True inner refl rec] have "next_i \<le> j" .
                with a show ?thesis by simp
              next
                case False
                with inb nb nlt ngt nc "1.prems" "1.hyps"
                have "parse_loop lines ci (i + 1) res = Inr (m, j)"
                  by (simp add: parse_loop.psimps)
                with "1.IH"(6)[OF inb nb nlt ngt nc False] show ?thesis by simp
              qed
            qed
          qed
        qed
      qed
    qed
  qed
  show ?thesis
  proof (relation "measure (\<lambda>(lines, ci, i, res). length lines - i)")
    fix lines :: "string list" and current_indent i :: nat and result :: pydict
      and x2 :: "pydict \<times> nat" and nested next_i
    assume inb: "i < length lines"
      and inner: "parse_loop lines (entry_indent lines (i + 1)) (i + 1) [] = Inr x2"
      and x2: "(nested, next_i) = x2"
      and dom: "parse_loop_dom (lines, entry_indent lines (i + 1), i + 1, [])"
    from inner x2 have "parse_loop lines (entry_indent lines (i + 1)) (i + 1) [] = Inr (nested, next_i)"
      by simp
    from parse_loop_dom_index[OF dom this] inb
    show "((lines, current_indent, next_i,
            AList.update (butlast (strip (lines ! i))) (VObj nested) result),
           lines, current_indent, i, result)
          \<in> measure (\<lambda>(lines, ci, i, res). length lines - i)"
      by simp
  qed auto
qed

declare parse_loop.simps [simp del]

text \<open>\<^verbatim>\<open>_parse_lines(lines, start_idx)\<close>.\<close>

definition parse_lines :: "string list \<Rightarrow> nat \<Rightarrow> py_error + (pydict \<times> nat)" where
  "parse_lines lines start_idx = parse_loop lines (entry_indent lines start_idx) start_idx []"

text \<open>
  The loop over \<^verbatim>\<open>record_strs\<close> in \<^verbatim>\<open>toon_to_dict\<close>, with the list
  \<^verbatim>\<open>records\<close> built so far as an argument.
\<close>

fun collect_records :: "string list \<Rightarrow> dataset \<Rightarrow> py_error + dataset" where
  "collect_records [] records = Inr records"
| "collect_records (record_str # rest) records =
     (let lines = split_str [NL] (strip record_str) in
      if lines \<noteq> [] then
        (case parse_lines lines 0 of
           Inl e \<Rightarrow> Inl e
         | Inr (record, next_i) \<Rightarrow>
             if record \<noteq> [] then collect_records rest (records @ [record])
             else collect_records rest records)
      else collect_records rest records)"

definition toon_to_dict :: "string \<Rightarrow> py_error + dataset" where
  "toon_to_dict toon_str = collect_records (split_str SEP (strip toon_str)) []"

text \<open>
  One chunk of the input, as the loop of \<^verbatim>\<open>toon_to_dict\<close> treats it: strip, split
  into lines, parse from line 0 and keep the mapping
  (\<^verbatim>\<open>record, _ = _parse_lines(lines, 0)\<close>).
\<close>

definition chunk_mapping :: "string \<Rightarrow> py_error + pydict" where
  "chunk_mapping record_str =
     (case parse_lines (split_str [NL] (strip record_str)) 0 of
        Inl e \<Rightarrow> Inl e
      | Inr (rec, next_i) \<Rightarrow> Inr rec)"

section \<open>Notions used to state the properties\<close>



text \<open>An occurrence of \<open>sub\<close> in \<open>s\<close> starting at index \<open>p\<close>.\<close>

definition occurs_at :: "string \<Rightarrow> string \<Rightarrow> nat \<Rightarrow> bool" where
  "occurs_at sub s p = prefix sub (drop p s)"

text \<open>
  Data without a newline: no key, string value or string list element contains the
  newline character, at any nesting depth.
\<close>

fun atom_nl_free :: "atom \<Rightarrow> bool" where
  "atom_nl_free (AStr s) = (NL \<notin> set s)"
| "atom_nl_free a = True"

fun val_nl_free :: "val \<Rightarrow> bool"
  and fields_nl_free :: "(string \<times> val) list \<Rightarrow> bool" where
  "val_nl_free (VStr s) = (NL \<notin> set s)"
| "val_nl_free (VInt n) = True"
| "val_nl_free (VBool b) = True"
| "val_nl_free (VList xs) = list_all atom_nl_free xs"
| "val_nl_free (VObj d) = fields_nl_free d"
| "fields_nl_free [] = True"
| "fields_nl_free ((k, v) # rest) = (NL \<notin> set k \<and> val_nl_free v \<and> fields_nl_free rest)"

text \<open>A text each of whose lines is empty or contains a colon.\<close>

definition lines_ok :: "string \<Rightarrow> bool" where
  "lines_ok t = (\<forall>l \<in> set (split_str [NL] t). l = [] \<or> CHR '':'' \<in> set l)"

text \<open>
  Scalar data that survives a round trip. A text is trimmed when it is non-empty, on one
  line, and neither starts nor ends with white space. A key may be empty, but has no
  newline, no colon-space and no leading white space. A string value is trimmed and is
  not a token that decoding reads as something else: not wrapped in brackets, not a
  casing of \<open>true\<close> or \<open>false\<close>, not accepted by \<^verbatim>\<open>isdigit()\<close>. A list element is a
  trimmed string without comma-space. An integer is not negative. A record is not empty
  and its keys are distinct, as the keys of a Python dict are.
\<close>

definition trimmed :: "string \<Rightarrow> bool" where
  "trimmed s = (s \<noteq> [] \<and> NL \<notin> set s \<and> \<not> isspace (hd s) \<and> \<not> isspace (last s))"

definition key_ok :: "string \<Rightarrow> bool" where
  "key_ok k = (NL \<notin> set k \<and> \<not> contains '': '' k \<and> (k = [] \<or> \<not> isspace (hd k)))"

definition str_ok :: "string \<Rightarrow> bool" where
  "str_ok s = (trimmed s \<and> \<not> (prefix ''['' s \<and> suffix '']'' s)
               \<and> lower s \<notin> set [''true'', ''false''] \<and> \<not> isdigit_str s)"

fun elem_ok :: "atom \<Rightarrow> bool" where
  "elem_ok (AStr e) = (trimmed e \<and> \<not> contains '', '' e)"
| "elem_ok a = False"

fun val_ok :: "val \<Rightarrow> bool" where
  "val_ok (VStr s) = str_ok s"
| "val_ok (VInt n) = (0 \<le> n)"
| "val_ok (VBool b) = True"
| "val_ok (VList xs) = list_all elem_ok xs"
| "val_ok (VObj d) = False"

fun field_ok :: "string \<times> val \<Rightarrow> bool" where
  "field_ok (k, v) = (key_ok k \<and> val_ok v)"

definition record_ok :: "pydict \<Rightarrow> bool" where
  "record_ok r = (r \<noteq> [] \<and> distinct (map fst r) \<and> list_all field_ok r)"

text \<open>The line the encoder writes for a field that is not a dict.\<close>

definition field_line :: "string \<times> val \<Rightarrow> string" where
  "field_line kv = fst kv @ '': '' @ format_value (snd kv) 0"

section \<open>Basic facts about the string primitives\<close>

text \<open>\<^verbatim>\<open>str(value).lower()\<close> on a boolean is the lowercase word.\<close>

lemma lower_str_bool: "lower (py_str (ABool b)) = (if b then ''true'' else ''false'')"
proof (cases b)
  case True
  have "lower ''True'' = ''true''" by code_simp
  with True show ?thesis by simp
next
  case False
  have "lower ''False'' = ''false''" by code_simp
  with False show ?thesis by simp
qed

lemma format_value_bool [simp]:
  "format_value (VBool b) indent = (if b then ''true'' else ''false'')"
  by (simp only: format_value.simps lower_str_bool)

declare format_value.simps(3) [simp del]



lemma split_str_nonempty: "split_str (x # xs) s \<noteq> []"
  by (cases "find_sub (x # xs) s") (simp_all add: split_str.simps)

lemma dropWhile_self: "xs \<noteq> [] \<Longrightarrow> \<not> P (hd xs) \<Longrightarrow> dropWhile P xs = xs"
  by (cases xs) auto

lemma strip_id: "s \<noteq> [] \<Longrightarrow> \<not> isspace (hd s) \<Longrightarrow> \<not> isspace (last s) \<Longrightarrow> strip s = s"
proof -
  assume ne: "s \<noteq> []" and h: "\<not> isspace (hd s)" and l: "\<not> isspace (last s)"
  from ne l have "dropWhile isspace (rev s) = rev s"
    by (intro dropWhile_self) (simp_all add: hd_rev)
  with ne h show ?thesis
    by (simp add: strip_def lstrip_def rstrip_def dropWhile_self)
qed

lemma not_space_brackets: "\<not> isspace (CHR ''['')" "\<not> isspace (CHR '']'')"
  by (simp_all add: isspace_def)

section \<open>Nested object round trip\<close>

text \<open>
  Claim C2. Encoding and then decoding the one-record dataset
  \<open>{name: "Jenil", address: {city: "X", zip: "12345"}}\<close> gives back one record with
  \<open>name\<close> the string Jenil and \<open>address\<close> an object with \<open>city\<close> the string X and
  \<open>zip\<close> the integer 12345, in the original field order.
\<close>

theorem nested_object_round_trip:
  "toon_to_dict (dict_to_toon
     [[(''name'', VStr ''Jenil''),
       (''address'', VObj [(''city'', VStr ''X''), (''zip'', VStr ''12345'')])]])
   = Inr [[(''name'', VStr ''Jenil''),
           (''address'', VObj [(''city'', VStr ''X''), (''zip'', VInt 12345)])]]"
  by code_simp

section \<open>List formatting\<close>

lemma skills_encoded:
  "dict_to_toon [[(''skills'', VList [AStr ''C#'', AStr ''.NET'', AStr ''Angular''])]]
   = ''skills: [C#, .NET, Angular]''"
  by code_simp

lemma skills_decoded:
  "toon_to_dict ''skills: [C#, .NET, Angular]''
   = Inr [[(''skills'', VList [AStr ''C#'', AStr ''.NET'', AStr ''Angular''])]]"
  by code_simp

lemma parse_value_brackets:
  "parse_value (''['' @ body @ '']'') =
   Inr (VList (map AStr (filter (\<lambda>p. p \<noteq> []) (map strip (split_str '', '' body)))))"
proof -
  have "strip (''['' @ body @ '']'') = ''['' @ body @ '']''"
    by (rule strip_id) (simp_all add: not_space_brackets)
  moreover have "butlast (tl (''['' @ body @ '']'')) = body"
    by (simp add: butlast_append)
  moreover have "suffix '']'' (''['' @ body @ '']'')"
    by (simp add: suffix_def)
  ultimately show ?thesis
    unfolding parse_value_def Let_def
    by (simp add: filter_map comp_def)
qed

text \<open>
  Claim C4. The field \<open>skills\<close> holding the string list C#, .NET, Angular encodes to
  exactly the line \<open>skills: [C#, .NET, Angular]\<close>, and that line decodes to the same
  list of strings. For any bracketed token the interior is split on comma-space, every
  piece is trimmed, empty pieces are dropped, and the elements stay strings: no type is
  inferred for them.
\<close>

theorem list_field_format:
  "dict_to_toon [[(''skills'', VList [AStr ''C#'', AStr ''.NET'', AStr ''Angular''])]]
     = ''skills: [C#, .NET, Angular]''
   \<and> toon_to_dict ''skills: [C#, .NET, Angular]''
     = Inr [[(''skills'', VList [AStr ''C#'', AStr ''.NET'', AStr ''Angular''])]]
   \<and> parse_value (''['' @ body @ '']'')
     = Inr (VList (map AStr (filter (\<lambda>p. p \<noteq> []) (map strip (split_str '', '' body)))))"
  by (rule conjI [OF skills_encoded conjI [OF skills_decoded parse_value_brackets]])

section \<open>Empty dataset and dropped chunks\<close>

lemma collect_records_ok:
  "map chunk_mapping chunks = map Inr ms \<Longrightarrow>
   collect_records chunks acc = Inr (acc @ filter (\<lambda>m. m \<noteq> []) ms)"
proof (induction chunks arbitrary: ms acc)
  case Nil
  then show ?case by simp
next
  case (Cons c cs)
  then obtain m ms' where ms: "ms = m # ms'" and c: "chunk_mapping c = Inr m"
    and cs: "map chunk_mapping cs = map Inr ms'"
    by (cases ms) auto
  from c obtain j where "parse_lines (split_str [NL] (strip c)) 0 = Inr (m, j)"
    by (auto simp: chunk_mapping_def split: sum.splits)
  with Cons.IH [OF cs] ms show ?case
    by (simp add: split_str_nonempty Let_def)
qed

lemma encode_empty: "dict_to_toon [] = []"
  by (simp add: dict_to_toon_def)

lemma decode_empty: "toon_to_dict [] = Inr []"
  by code_simp

text \<open>
  Claim C8. Encoding the empty dataset gives the empty string and decoding the empty
  string gives the empty dataset. In general, when every chunk of the input yields a
  mapping, the decoded dataset is the list of those mappings in chunk order with the
  empty ones left out.
\<close>

theorem empty_and_dropped_chunks:
  "dict_to_toon [] = []
   \<and> toon_to_dict [] = Inr []
   \<and> (map chunk_mapping (split_str SEP (strip s)) = map Inr ms
        \<longrightarrow> toon_to_dict s = Inr (filter (\<lambda>m. m \<noteq> []) ms))"
  using encode_empty decode_empty collect_records_ok [of "split_str SEP (strip s)" ms "[]"]
  by (simp add: toon_to_dict_def)

theorem empty_and_dropped_chunks_witness:
  "map chunk_mapping (split_str SEP (strip (''a: 1'' @ SEP @ ''--------'' @ SEP @ ''b: 2'')))
     = map Inr [[(''a'', VInt 1)], [], [(''b'', VInt 2)]]
   \<and> toon_to_dict (''a: 1'' @ SEP @ ''--------'' @ SEP @ ''b: 2'')
     = Inr [[(''a'', VInt 1)], [(''b'', VInt 2)]]"
proof -
  have h: "map chunk_mapping (split_str SEP (strip (''a: 1'' @ SEP @ ''--------'' @ SEP @ ''b: 2'')))
     = map Inr [[(''a'', VInt 1)], [], [(''b'', VInt 2)]]"
    by code_simp
  from empty_and_dropped_chunks
         [of "''a: 1'' @ SEP @ ''--------'' @ SEP @ ''b: 2''"
             "[[(''a'', VInt 1)], [], [(''b'', VInt 2)]]"] h
  show ?thesis by simp
qed

section \<open>A digit that \<^verbatim>\<open>int\<close> refuses\<close>

text \<open>
  \<^verbatim>\<open>_parse_value\<close> guards \<^verbatim>\<open>int(value)\<close> with \<^verbatim>\<open>value.isdigit()\<close>, which also
  accepts the superscript digits; \<^verbatim>\<open>int\<close> does not, and the ValueError it raises
  is caught nowhere.
\<close>

text \<open>
  Claim C3 says that a token which is not a run of decimal digits (and is neither a
  bracketed list nor a boolean) decodes to a string taken verbatim. The one-character
  token U+00B2 (superscript two) is such a token, and \<^verbatim>\<open>_parse_value\<close> raises
  ValueError on it.
\<close>

theorem parse_value_superscript_raises:
  "parse_value [CHR 0xB2] = Inl ValueError"
  by code_simp

text \<open>
  Claim C6 says that decode never raises on malformed input. On the text
  \<open>k: \<close> followed by U+00B2 it raises ValueError.
\<close>

theorem toon_to_dict_superscript_raises:
  "toon_to_dict (''k: '' @ [CHR 0xB2]) = Inl ValueError"
  by code_simp

text \<open>
  Claim C7 says that the block parser returns a pair on every list of lines. On the
  single line \<open>k: \<close> followed by U+00B2, started at index 0, it raises ValueError.
\<close>

theorem parse_lines_superscript_raises:
  "parse_lines [''k: '' @ [CHR 0xB2]] 0 = Inl ValueError"
  by code_simp

text \<open>
  The rest of the token classification is as documented: a sign makes the token a
  string, leading zeros are dropped by \<^verbatim>\<open>int\<close>, and the bracket test comes first.
\<close>

lemma parse_value_minus_five: "parse_value ''-5'' = Inr (VStr ''-5'')"
  by code_simp

lemma parse_value_leading_zeros: "parse_value ''007'' = Inr (VInt 7)"
  by code_simp

lemma parse_value_list_first: "parse_value ''[true]'' = Inr (VList [AStr ''true''])"
  by code_simp

section \<open>The block parser, step by step\<close>

lemma parse_loop_end:
  "\<not> i < length lines \<Longrightarrow> parse_loop lines ci i res = Inr (res, i)"
  by (subst parse_loop.simps) simp

lemma parse_loop_blank:
  "i < length lines \<Longrightarrow> strip (lines ! i) = [] \<Longrightarrow>
   parse_loop lines ci i res = parse_loop lines ci (i + 1) res"
  by (subst parse_loop.simps) simp

lemma parse_loop_shallower:
  "i < length lines \<Longrightarrow> strip (lines ! i) \<noteq> [] \<Longrightarrow> indent_of (lines ! i) < ci \<Longrightarrow>
   parse_loop lines ci i res = Inr (res, i)"
  by (subst parse_loop.simps) simp

lemma parse_loop_deeper:
  "i < length lines \<Longrightarrow> strip (lines ! i) \<noteq> [] \<Longrightarrow> ci < indent_of (lines ! i) \<Longrightarrow>
   parse_loop lines ci i res = parse_loop lines ci (i + 1) res"
  by (subst parse_loop.simps) simp

lemma parse_loop_key_value:
  "i < length lines \<Longrightarrow> strip (lines ! i) \<noteq> [] \<Longrightarrow> indent_of (lines ! i) = ci \<Longrightarrow>
   contains '': '' (strip (lines ! i)) \<Longrightarrow>
   parse_loop lines ci i res =
     (case split_once '': '' (strip (lines ! i)) of
        [key, raw] \<Rightarrow>
          (case parse_value raw of
             Inl e \<Rightarrow> Inl e
           | Inr v \<Rightarrow> parse_loop lines ci (i + 1) (AList.update key v res))
      | _ \<Rightarrow> Inl ValueError)"
  by (subst parse_loop.simps) simp

lemma parse_loop_key_only:
  "i < length lines \<Longrightarrow> strip (lines ! i) \<noteq> [] \<Longrightarrow> indent_of (lines ! i) = ci \<Longrightarrow>
   \<not> contains '': '' (strip (lines ! i)) \<Longrightarrow> suffix '':'' (strip (lines ! i)) \<Longrightarrow>
   parse_loop lines ci i res =
     (case parse_lines lines (i + 1) of
        Inl e \<Rightarrow> Inl e
      | Inr (nested, next_i) \<Rightarrow>
          parse_loop lines ci next_i
            (AList.update (butlast (strip (lines ! i))) (VObj nested) res))"
  by (subst parse_loop.simps) (simp add: parse_lines_def)

lemma parse_loop_other:
  "i < length lines \<Longrightarrow> strip (lines ! i) \<noteq> [] \<Longrightarrow> indent_of (lines ! i) = ci \<Longrightarrow>
   \<not> contains '': '' (strip (lines ! i)) \<Longrightarrow> \<not> suffix '':'' (strip (lines ! i)) \<Longrightarrow>
   parse_loop lines ci i res = parse_loop lines ci (i + 1) res"
  by (subst parse_loop.simps) simp

lemma split_once_pair:
  "contains sep s \<Longrightarrow> \<exists>key raw. split_once sep s = [key, raw]"
  by (auto simp: contains_def split_once_def)

text \<open>Where the loop returns: never before its start, and only at the end of the lines or at a
  non-blank line shallower than the reference indent.\<close>

lemma parse_loop_returns:
  "parse_loop lines ci i res = Inr (m, j) \<Longrightarrow>
   i \<le> j \<and> (j < length lines \<longrightarrow> strip (lines ! j) \<noteq> [] \<and> indent_of (lines ! j) < ci)"
proof (induction "length lines - i" arbitrary: ci i res m j rule: less_induct)
  case less
  note ret = less.prems
  show ?case
  proof (cases "i < length lines")
    case False
    with ret show ?thesis by (simp add: parse_loop_end)
  next
    case inb: True
    have IH: "i' \<le> j' \<and> (j' < length lines \<longrightarrow>
                strip (lines ! j') \<noteq> [] \<and> indent_of (lines ! j') < ci')"
      if "i < i'" and "parse_loop lines ci' i' res' = Inr (m', j')" for i' ci' res' m' j'
    proof -
      from inb that(1) have "length lines - i' < length lines - i" by arith
      from less.hyps [OF this that(2)] show ?thesis .
    qed
    show ?thesis
    proof (cases "strip (lines ! i) = []")
      case True
      with inb ret have "parse_loop lines ci (i + 1) res = Inr (m, j)"
        by (simp add: parse_loop_blank)
      from IH [OF _ this] show ?thesis by simp
    next
      case nb: False
      consider (lt) "indent_of (lines ! i) < ci" | (gt) "ci < indent_of (lines ! i)"
        | (eq) "indent_of (lines ! i) = ci"
        by linarith
      then show ?thesis
      proof cases
        case lt
        with inb nb ret show ?thesis by (simp add: parse_loop_shallower)
      next
        case gt
        with inb nb ret have "parse_loop lines ci (i + 1) res = Inr (m, j)"
          by (simp add: parse_loop_deeper)
        from IH [OF _ this] show ?thesis by simp
      next
        case eq
        show ?thesis
        proof (cases "contains '': '' (strip (lines ! i))")
          case True
          from split_once_pair [OF True] obtain key raw where
            sp: "split_once '': '' (strip (lines ! i)) = [key, raw]" by blast
          with inb nb eq True ret obtain v where
            "parse_loop lines ci (i + 1) (AList.update key v res) = Inr (m, j)"
            by (auto simp: parse_loop_key_value split: sum.splits)
          from IH [OF _ this] show ?thesis by simp
        next
          case nc: False
          show ?thesis
          proof (cases "suffix '':'' (strip (lines ! i))")
            case True
            with inb nb eq nc ret obtain nested next_i where
              inner: "parse_loop lines (entry_indent lines (i + 1)) (i + 1) [] = Inr (nested, next_i)"
              and outer: "parse_loop lines ci next_i
                 (AList.update (butlast (strip (lines ! i))) (VObj nested) res) = Inr (m, j)"
              by (auto simp: parse_loop_key_only parse_lines_def split: sum.splits)
            from IH [OF _ inner] have a: "i + 1 \<le> next_i" by simp
            then have "i < next_i" by simp
            from IH [OF this outer] a show ?thesis by simp
          next
            case False
            with inb nb eq nc ret have "parse_loop lines ci (i + 1) res = Inr (m, j)"
              by (simp add: parse_loop_other)
            from IH [OF _ this] show ?thesis by simp
          qed
        qed
      qed
    qed
  qed
qed

lemma parse_lines_strict:
  assumes "parse_lines lines start = Inr (m, j)" and "start < length lines"
  shows "start < j"
proof -
  let ?ci = "entry_indent lines start"
  have ci: "?ci = indent_of (lines ! start)" using assms(2) by (simp add: entry_indent_def)
  have ret: "parse_loop lines ?ci start [] = Inr (m, j)" using assms(1) by (simp add: parse_lines_def)
  show ?thesis
  proof (cases "strip (lines ! start) = []")
    case True
    with assms(2) ret have "parse_loop lines ?ci (start + 1) [] = Inr (m, j)"
      by (simp add: parse_loop_blank)
    from parse_loop_returns [OF this] show ?thesis by simp
  next
    case nb: False
    show ?thesis
    proof (cases "contains '': '' (strip (lines ! start))")
      case True
      from split_once_pair [OF True] obtain key raw where
        sp: "split_once '': '' (strip (lines ! start)) = [key, raw]" by blast
      with assms(2) nb ci True ret obtain v where
        "parse_loop lines ?ci (start + 1) (AList.update key v []) = Inr (m, j)"
        by (auto simp: parse_loop_key_value split: sum.splits)
      from parse_loop_returns [OF this] show ?thesis by simp
    next
      case nc: False
      show ?thesis
      proof (cases "suffix '':'' (strip (lines ! start))")
        case True
        with assms(2) nb ci nc ret obtain nested next_i where
          inner: "parse_loop lines (entry_indent lines (start + 1)) (start + 1) [] = Inr (nested, next_i)"
          and outer: "parse_loop lines ?ci next_i
             (AList.update (butlast (strip (lines ! start))) (VObj nested) []) = Inr (m, j)"
          by (auto simp: parse_loop_key_only parse_lines_def split: sum.splits)
        from parse_loop_returns [OF inner] parse_loop_returns [OF outer] show ?thesis by simp
      next
        case False
        with assms(2) nb ci nc ret have "parse_loop lines ?ci (start + 1) [] = Inr (m, j)"
          by (simp add: parse_loop_other)
        from parse_loop_returns [OF this] show ?thesis by simp
      qed
    qed
  qed
qed

section \<open>Booleans\<close>







section \<open>A key-only line followed by a line at the same indent\<close>






section \<open>Finding, splitting and joining\<close>

lemma find_sub_Some_iff:
  "find_sub sub s = Some i \<longleftrightarrow>
     i \<le> length s \<and> prefix sub (drop i s) \<and> (\<forall>p<i. \<not> prefix sub (drop p s))"
proof (induction s arbitrary: i)
  case Nil
  then show ?case by auto
next
  case (Cons c cs)
  show ?case
  proof (cases "prefix sub (c # cs)")
    case True
    then show ?thesis by auto
  next
    case False
    show ?thesis
    proof (cases i)
      case 0
      with False show ?thesis by auto
    next
      case (Suc k)
      have "(\<forall>p<Suc k. \<not> prefix sub (drop p (c # cs))) \<longleftrightarrow> (\<forall>p<k. \<not> prefix sub (drop p cs))"
        using False by (auto simp: less_Suc_eq_0_disj)
      with False Suc Cons.IH [of k] show ?thesis by auto
    qed
  qed
qed

lemma find_sub_None_iff:
  "find_sub sub s = None \<longleftrightarrow> (\<forall>p\<le>length s. \<not> prefix sub (drop p s))"
proof (induction s)
  case Nil
  then show ?case by auto
next
  case (Cons c cs)
  have "(\<forall>p\<le>length (c # cs). \<not> prefix sub (drop p (c # cs))) \<longleftrightarrow>
        \<not> prefix sub (c # cs) \<and> (\<forall>p\<le>length cs. \<not> prefix sub (drop p cs))"
  proof (intro iffI conjI allI impI)
    assume a: "\<forall>p\<le>length (c # cs). \<not> prefix sub (drop p (c # cs))"
    from a [rule_format, of 0] show "\<not> prefix sub (c # cs)" by simp
    fix p assume "p \<le> length cs"
    with a [rule_format, of "Suc p"] show "\<not> prefix sub (drop p cs)" by simp
  next
    fix p
    assume a: "\<not> prefix sub (c # cs) \<and> (\<forall>p\<le>length cs. \<not> prefix sub (drop p cs))"
      and p: "p \<le> length (c # cs)"
    show "\<not> prefix sub (drop p (c # cs))"
    proof (cases p)
      case 0
      with a show ?thesis by simp
    next
      case (Suc k)
      with a p show ?thesis by simp
    qed
  qed
  with Cons.IH show ?case by auto
qed

lemma find_sub_append_sep:
  assumes "\<And>p. p < length a \<Longrightarrow> \<not> prefix sep (drop p (a @ sep @ rest))"
  shows "find_sub sep (a @ sep @ rest) = Some (length a)"
  using assms by (simp add: find_sub_Some_iff)

lemma split_str_append_sep:
  assumes "\<And>p. p < length a \<Longrightarrow> \<not> prefix (x # xs) (drop p (a @ (x # xs) @ rest))"
  shows "split_str (x # xs) (a @ (x # xs) @ rest) = a # split_str (x # xs) rest"
  using find_sub_append_sep [OF assms] by (subst split_str.simps) simp

lemma split_str_no_sep:
  "\<not> contains (x # xs) s \<Longrightarrow> split_str (x # xs) s = [s]"
  by (subst split_str.simps) (simp add: contains_def)

lemma contains_iff: "contains sub s \<longleftrightarrow> (\<exists>p\<le>length s. prefix sub (drop p s))"
  using find_sub_None_iff [of sub s] by (auto simp: contains_def)

text \<open>Splitting at a single character.\<close>

lemma split_char_Nil: "split_str [c] [] = [[]]"
  by (subst split_str.simps) simp

lemma split_char_hit: "split_str [c] (c # s) = [] # split_str [c] s"
  by (subst split_str.simps) simp

lemma split_char_miss:
  "x \<noteq> c \<Longrightarrow> split_str [c] (x # s) = (x # hd (split_str [c] s)) # tl (split_str [c] s)"
  by (subst split_str.simps, subst (2) split_str.simps, subst (3) split_str.simps)
     (auto split: option.splits)

lemma split_char_append:
  "split_str [c] (a @ c # b) = split_str [c] a @ split_str [c] b"
proof (induction a)
  case Nil
  then show ?case by (simp add: split_char_Nil split_char_hit)
next
  case (Cons x a)
  show ?case
  proof (cases "x = c")
    case True
    with Cons show ?thesis by (simp add: split_char_hit)
  next
    case False
    have "split_str [c] a \<noteq> []" by (rule split_str_nonempty)
    with False Cons show ?thesis by (simp add: split_char_miss)
  qed
qed

lemma split_char_free: "c \<notin> set s \<Longrightarrow> split_str [c] s = [s]"
proof (induction s)
  case Nil
  then show ?case by (simp add: split_char_Nil)
next
  case (Cons x s)
  then have "x \<noteq> c" and "split_str [c] s = [s]" by auto
  then show ?case by (simp add: split_char_miss)
qed

lemma join_Cons_Cons: "join sep ((x # p) # ps) = x # join sep (p # ps)"
  by (cases ps) simp_all

lemma join_split_char: "join [c] (split_str [c] s) = s"
proof (induction s)
  case Nil
  then show ?case by (simp add: split_char_Nil)
next
  case (Cons x s)
  have ne: "split_str [c] s \<noteq> []" by (rule split_str_nonempty)
  show ?case
  proof (cases "x = c")
    case True
    with Cons ne show ?thesis
      by (cases "split_str [c] s") (simp_all add: split_char_hit)
  next
    case False
    with Cons ne show ?thesis
      by (cases "split_str [c] s") (simp_all add: split_char_miss join_Cons_Cons)
  qed
qed

lemma join_Cons: "ps \<noteq> [] \<Longrightarrow> join sep (p # ps) = p @ sep @ join sep ps"
  by (cases ps) simp_all

lemma split_char_join:
  "ps \<noteq> [] \<Longrightarrow> split_str [c] (join [c] ps) = concat (map (split_str [c]) ps)"
proof (induction ps)
  case Nil
  then show ?case by simp
next
  case (Cons p ps)
  show ?case
  proof (cases "ps = []")
    case True
    then show ?thesis by simp
  next
    case False
    with Cons show ?thesis by (simp add: join_Cons split_char_append)
  qed
qed

lemma split_char_join_free:
  "ps \<noteq> [] \<Longrightarrow> \<forall>p \<in> set ps. c \<notin> set p \<Longrightarrow> split_str [c] (join [c] ps) = ps"
proof -
  assume ne: "ps \<noteq> []" and free: "\<forall>p \<in> set ps. c \<notin> set p"
  from free have "concat (map (split_str [c]) ps) = ps"
    by (induction ps) (simp_all add: split_char_free)
  with ne show ?thesis by (simp add: split_char_join)
qed

section \<open>Occurrences of the record separator\<close>

lemma NL_not_dash: "NL \<noteq> CHR ''-''" "NL \<noteq> CHR '':''" "NL \<noteq> CHR '' ''" "NL \<noteq> CHR '',''"
  "NL \<noteq> CHR ''[''" "NL \<noteq> CHR '']''"
  by (simp_all add: NL_def)

lemma split_dashes: "split_str [NL] ''--------'' = [''--------'']"
  by (rule split_char_free) (simp add: NL_def)

lemma split_sep:
  "split_str [NL] (u @ SEP @ v) =
   split_str [NL] u @ [[], ''--------'', []] @ split_str [NL] v"
proof -
  have "u @ SEP @ v = u @ NL # ([] @ NL # (''--------'' @ NL # ([] @ NL # v)))"
    by (simp add: SEP_def)
  then show ?thesis
    by (simp only: split_char_append split_dashes split_char_Nil) simp
qed

lemma occurs_at_decomp:
  "occurs_at sub s p \<Longrightarrow> s = take p s @ sub @ drop (p + length sub) s"
proof -
  assume "occurs_at sub s p"
  then obtain v where v: "drop p s = sub @ v" by (auto simp: occurs_at_def prefix_def)
  then have "drop (length sub) (drop p s) = v" by simp
  then have "drop (p + length sub) s = v" by (simp add: add.commute)
  with v have "take p s @ sub @ drop (p + length sub) s = take p s @ drop p s" by simp
  then show ?thesis by simp
qed

lemma split_occurrence:
  assumes "occurs_at SEP s p"
  shows "split_str [NL] s =
     split_str [NL] (take p s) @ [[], ''--------'', []] @ split_str [NL] (drop (p + length SEP) s)"
proof -
  from occurs_at_decomp [OF assms]
  have "split_str [NL] s = split_str [NL] (take p s @ SEP @ drop (p + length SEP) s)" by simp
  then show ?thesis by (simp only: split_sep)
qed

lemma occurs_at_nth:
  "occurs_at (x # xs) s p \<Longrightarrow> p < length s \<and> s ! p = x"
proof -
  assume "occurs_at (x # xs) s p"
  then obtain v where v: "drop p s = x # xs @ v" by (auto simp: occurs_at_def prefix_def)
  then have "p < length s" by (cases "p < length s") auto
  moreover from this v have "s ! p = x"
    by (metis nth_via_drop)
  ultimately show ?thesis by simp
qed

lemma split_take_less:
  assumes "p < q" and "q \<le> length s" and "s ! p = NL"
  shows "length (split_str [NL] (take p s)) < length (split_str [NL] (take q s))"
proof -
  let ?t = "take q s"
  from assms have pl: "p < length ?t" by simp
  have "?t = take p ?t @ ?t ! p # drop (Suc p) ?t"
    by (rule id_take_nth_drop [OF pl])
  with assms have "?t = take p s @ NL # drop (Suc p) ?t"
    by (simp add: min_def)
  then have "split_str [NL] ?t = split_str [NL] (take p s) @ split_str [NL] (drop (Suc p) ?t)"
    by (metis split_char_append)
  moreover have "split_str [NL] (drop (Suc p) ?t) \<noteq> []" by (rule split_str_nonempty)
  ultimately show ?thesis by (simp add: length_greater_0_conv [symmetric] del: length_greater_0_conv)
qed

lemma SEP_Cons: "SEP = NL # tl SEP" and SEP_length: "length SEP = 12"
  by (simp_all add: SEP_def)

text \<open>No separator starts inside a block none of whose lines is the dash line.\<close>

lemma no_sep_inside:
  assumes "''--------'' \<notin> set (split_str [NL] b)"
  shows "\<not> occurs_at SEP b p"
proof
  assume "occurs_at SEP b p"
  from split_occurrence [OF this] have "''--------'' \<in> set (split_str [NL] b)" by simp
  with assms show False by simp
qed

lemma no_sep_before:
  assumes nd: "''--------'' \<notin> set (split_str [NL] b)" and p: "p < length b"
  shows "\<not> occurs_at SEP (b @ SEP @ rest) p"
proof
  let ?T = "b @ SEP @ rest"
  let ?u = "take p ?T"
  assume occ: "occurs_at SEP ?T p"
  from occ have "?T ! p = NL" using occurs_at_nth [of NL "tl SEP" ?T p] SEP_Cons by simp
  with p have bp: "b ! p = NL" by (simp add: nth_append)
  from p have u: "?u = take p b" by simp
  have "length (split_str [NL] (take p b)) < length (split_str [NL] (take (length b) b))"
    by (rule split_take_less [OF p _ bp]) simp
  then have "length (split_str [NL] (take p b)) < length (split_str [NL] b)" by simp
  then have lt: "length (split_str [NL] ?u) < length (split_str [NL] b)" by (simp only: u)
  let ?n = "length (split_str [NL] ?u)"
  from split_occurrence [OF occ]
  have "split_str [NL] ?T ! (?n + 1) = ''--------''"
    by (simp add: nth_append)
  then have d: "(split_str [NL] b @ [[], ''--------'', []] @ split_str [NL] rest) ! (?n + 1) = ''--------''"
    by (simp only: split_sep)
  show False
  proof (cases "?n + 1 < length (split_str [NL] b)")
    case True
    with d have "split_str [NL] b ! (?n + 1) = ''--------''" by (simp add: nth_append)
    with True nd show False by (metis nth_mem)
  next
    case False
    with lt have "?n + 1 = length (split_str [NL] b)" by simp
    with d show False by (simp add: nth_append)
  qed
qed

lemma no_sep_after:
  assumes nd: "''--------'' \<notin> set (split_str [NL] b2)" and p: "length b1 < p"
  shows "\<not> occurs_at SEP (b1 @ SEP @ b2) p"
proof
  define T where "T = tl SEP @ b2"
  assume occ: "occurs_at SEP (b1 @ SEP @ b2) p"
  from p obtain q where q: "p = length b1 + Suc q" by (metis less_iff_Suc_add add_Suc_right)
  have "drop p (b1 @ SEP @ b2) = drop q T"
    unfolding T_def by (subst SEP_Cons) (simp add: q)
  with occ have occ': "occurs_at SEP T q" by (simp add: occurs_at_def)
  have T: "T = [] @ NL # (''--------'' @ NL # ([] @ NL # b2))" by (simp add: T_def SEP_def)
  have sT: "split_str [NL] T = [[], ''--------'', []] @ split_str [NL] b2"
    by (subst T) (simp only: split_char_append split_dashes split_char_Nil, simp)
  define n where "n = length (split_str [NL] (take q T))"
  define m where "m = length (split_str [NL] (drop (q + length SEP) T))"
  have n: "0 < n" unfolding n_def by (simp add: split_str_nonempty)
  have so: "split_str [NL] T = split_str [NL] (take q T) @ [[], ''--------'', []]
              @ split_str [NL] (drop (q + length SEP) T)"
    by (rule split_occurrence [OF occ'])
  have "split_str [NL] T ! (n + 1) = ''--------''"
    by (subst so) (simp add: nth_append n_def)
  with sT have d: "([[], ''--------'', []] @ split_str [NL] b2) ! (n + 1) = ''--------''" by simp
  have "length (split_str [NL] T) = n + 3 + m"
    by (subst so) (simp add: n_def m_def)
  with sT have len: "n \<le> length (split_str [NL] b2)" by simp
  show False
  proof (cases "n = 1")
    case True
    with d show False by simp
  next
    case False
    with n have "2 \<le> n" by simp
    then obtain k where k: "n = 2 + k" by (metis le_iff_add)
    with len have "k < length (split_str [NL] b2)" by simp
    moreover from d k have "split_str [NL] b2 ! k = ''--------''"
      by (simp add: nth_append)
    ultimately show False using nd by (metis nth_mem)
  qed
qed

lemma sep_at_boundary: "occurs_at SEP (b1 @ SEP @ b2) (length b1)"
  by (simp add: occurs_at_def)

lemma sep_unique:
  assumes "''--------'' \<notin> set (split_str [NL] b1)" and "''--------'' \<notin> set (split_str [NL] b2)"
  shows "occurs_at SEP (b1 @ SEP @ b2) p \<longleftrightarrow> p = length b1"
proof -
  consider "p < length b1" | "p = length b1" | "length b1 < p" by linarith
  then show ?thesis
  proof cases
    case 1
    with no_sep_before [OF assms(1) 1] show ?thesis by simp
  next
    case 2
    with sep_at_boundary show ?thesis by simp
  next
    case 3
    with no_sep_after [OF assms(2) 3] show ?thesis by simp
  qed
qed

section \<open>The lines of a record block\<close>

lemma lines_ok_single: "NL \<notin> set l \<Longrightarrow> CHR '':'' \<in> set l \<Longrightarrow> lines_ok l"
  by (simp add: lines_ok_def split_char_free)

lemma lines_ok_join: "\<forall>p \<in> set ps. lines_ok p \<Longrightarrow> lines_ok (join [NL] ps)"
proof (cases "ps = []")
  case True
  then show ?thesis by (simp add: lines_ok_def split_char_Nil)
next
  case False
  assume "\<forall>p \<in> set ps. lines_ok p"
  with False show ?thesis by (auto simp: lines_ok_def split_char_join)
qed

lemma lines_ok_no_dashes: "lines_ok t \<Longrightarrow> ''--------'' \<notin> set (split_str [NL] t)"
  by (auto simp: lines_ok_def)

lemma digit_char_in: "d < 10 \<Longrightarrow> digit_char d \<in> set ''0123456789''"
proof -
  assume "d < 10"
  then have "d \<in> {0, 1, 2, 3, 4, 5, 6, 7, 8, 9}" by auto
  then show ?thesis by (auto simp: digit_char_def)
qed

lemma str_nat_digits: "set (str_nat n) \<subseteq> set ''0123456789''"
proof (induction n rule: str_nat.induct)
  case (1 n)
  show ?case
  proof (cases "n < 10")
    case True
    with digit_char_in [of n] show ?thesis by (subst str_nat.simps) simp
  next
    case False
    have "n mod 10 < 10" by simp
    from digit_char_in [OF this] "1.IH" [OF False] False show ?thesis
      by (subst str_nat.simps) simp
  qed
qed

lemma str_nat_nonempty: "str_nat n \<noteq> []"
  by (subst str_nat.simps) simp

lemma str_int_nl_free: "NL \<notin> set (str_int n)"
  using str_nat_digits by (auto simp: str_int_def NL_def)

lemma set_join: "set (join sep ps) \<subseteq> set sep \<union> \<Union> (set ` set ps)"
  by (induction sep ps rule: join.induct) auto

lemma py_str_nl_free: "atom_nl_free a \<Longrightarrow> NL \<notin> set (py_str a)"
  by (cases a) (auto simp: str_int_nl_free [unfolded NL_def] NL_def)

lemma space_nl_free: "NL \<notin> set (space n)"
  by (induction n) (auto simp: space_def NL_def)

lemma scalar_nl_free:
  "\<not> is_dict v \<Longrightarrow> val_nl_free v \<Longrightarrow> NL \<notin> set (format_value v indent)"
proof (cases v)
  case (VList xs)
  assume "val_nl_free v"
  with VList have "\<forall>a \<in> set xs. NL \<notin> set (py_str a)"
    by (auto simp: list_all_iff py_str_nl_free)
  then have "NL \<notin> set (join '', '' (map py_str xs))"
    using set_join [of "'', ''" "map py_str xs"] by (auto simp: NL_def)
  with VList show ?thesis by (simp add: NL_def)
qed (auto simp: str_int_nl_free [unfolded NL_def] NL_def)

lemma format_lines_ok:
  "is_dict v \<Longrightarrow> val_nl_free v \<Longrightarrow> lines_ok (format_value v indent)"
  "fields_nl_free d \<Longrightarrow> \<forall>x \<in> set (format_fields d indent). lines_ok x"
proof (induction v indent and d indent rule: format_value_format_fields.induct)
  case (2 d indent)
  then show ?case by (simp add: lines_ok_join)
next
  case (7 k v rest indent)
  show ?case
  proof (cases "is_dict v")
    case True
    with 7 have "lines_ok (space indent @ ''  '' @ k @ '':'')"
      by (intro lines_ok_single) (auto simp: space_nl_free [unfolded NL_def] NL_def)
    with True 7 show ?thesis by simp
  next
    case False
    with 7 have "NL \<notin> set (format_value v (indent + 1))" by (simp add: scalar_nl_free)
    with 7 have "lines_ok (space indent @ ''  '' @ k @ '': '' @ format_value v (indent + 1))"
      by (intro lines_ok_single) (auto simp: space_nl_free [unfolded NL_def] NL_def)
    with False 7 show ?thesis by simp
  qed
qed simp_all

lemma record_lines_ok:
  "fields_nl_free r \<Longrightarrow> \<forall>x \<in> set (record_lines r). lines_ok x"
proof (induction r rule: record_lines.induct)
  case 1
  then show ?case by simp
next
  case (2 key v rest)
  show ?case
  proof (cases "is_dict v")
    case True
    with 2 have "lines_ok (key @ '':'')"
      by (intro lines_ok_single) (auto simp: NL_def)
    with True 2 show ?thesis by (simp add: format_lines_ok)
  next
    case False
    with 2 have "NL \<notin> set (format_value v 0)" by (simp add: scalar_nl_free)
    with 2 have "lines_ok (key @ '': '' @ format_value v 0)"
      by (intro lines_ok_single) (auto simp: NL_def)
    with False 2 show ?thesis by simp
  qed
qed

lemma record_block_no_dashes:
  "fields_nl_free r \<Longrightarrow> ''--------'' \<notin> set (split_str [NL] (record_block r))"
  unfolding record_block_def
  by (intro lines_ok_no_dashes lines_ok_join record_lines_ok)

section \<open>Decoding what the encoder writes: scalars\<close>

text \<open>Digits.\<close>

lemma decimal_chars:
  "\<forall>c \<in> set ''0123456789''. \<not> isspace c \<and> lower_char c = c \<and> isdigit c \<and> c \<noteq> CHR ''[''
      \<and> c \<noteq> CHR ''t'' \<and> c \<noteq> CHR ''f''"
  by code_simp

lemma isdecimal_facts:
  assumes "isdecimal c"
  shows "\<not> isspace c" "lower_char c = c" "isdigit c" "c \<noteq> CHR ''[''"
    "c \<noteq> CHR ''t''" "c \<noteq> CHR ''f''"
  using assms decimal_chars unfolding isdecimal_def by blast+

lemma digit_char_decimal: "d < 10 \<Longrightarrow> isdecimal (digit_char d)"
proof -
  have "\<forall>k \<in> set [0..<10]. isdecimal (digit_char k)" by code_simp
  then show "d < 10 \<Longrightarrow> isdecimal (digit_char d)" by simp
qed

lemma digit_val_char: "d < 10 \<Longrightarrow> digit_val (digit_char d) = int d"
proof -
  have "\<forall>k \<in> set [0..<10]. digit_val (digit_char k) = int k" by code_simp
  then show "d < 10 \<Longrightarrow> digit_val (digit_char d) = int d" by simp
qed

lemma str_nat_decimal: "list_all isdecimal (str_nat n)"
proof (induction n rule: str_nat.induct)
  case (1 n)
  show ?case
  proof (cases "n < 10")
    case True
    then show ?thesis by (subst str_nat.simps) (simp add: digit_char_decimal)
  next
    case False
    have "n mod 10 < 10" by simp
    from digit_char_decimal [OF this] "1.IH" [OF False] False show ?thesis
      by (subst str_nat.simps) simp
  qed
qed

lemma horner_str_nat:
  "foldl (\<lambda>acc c. 10 * acc + digit_val c) 0 (str_nat n) = int n"
proof (induction n rule: str_nat.induct)
  case (1 n)
  show ?case
  proof (cases "n < 10")
    case True
    then show ?thesis by (subst str_nat.simps) (simp add: digit_val_char)
  next
    case False
    have "n mod 10 < 10" by simp
    from digit_val_char [OF this] "1.IH" [OF False] False show ?thesis
      by (subst str_nat.simps) (simp, presburger)
  qed
qed

lemma py_int_str_nat: "py_int (str_nat n) = Inr (int n)"
  by (simp add: py_int_def str_nat_nonempty str_nat_decimal horner_str_nat)

lemma all_decimal_digit: "list_all isdecimal s \<Longrightarrow> list_all isdigit s"
  by (induction s) (simp_all add: isdecimal_facts)

lemma isdigit_str_str_nat: "isdigit_str (str_nat n)"
  by (simp add: isdigit_str_def str_nat_nonempty all_decimal_digit str_nat_decimal)

lemma hd_in_set: "s \<noteq> [] \<Longrightarrow> hd s \<in> set s"
  by (cases s) auto

lemma str_nat_hd_last: "isdecimal (hd (str_nat n))" "isdecimal (last (str_nat n))"
  using str_nat_decimal [of n] hd_in_set [OF str_nat_nonempty, of n]
    last_in_set [OF str_nat_nonempty, of n]
  by (simp_all add: list_all_iff)

lemma str_nat_strip: "strip (str_nat n) = str_nat n"
  by (rule strip_id) (simp_all add: str_nat_nonempty isdecimal_facts str_nat_hd_last)

lemma all_decimal_lower: "list_all isdecimal s \<Longrightarrow> map lower_char s = s"
  by (induction s) (simp_all add: isdecimal_facts)

lemma str_nat_lower: "lower (str_nat n) = str_nat n"
  by (simp add: lower_def all_decimal_lower str_nat_decimal)

lemma decimal_not_word:
  assumes "list_all isdecimal s"
  shows "s \<noteq> ''true''" "s \<noteq> ''false''" "\<not> prefix ''['' s"
proof -
  show "s \<noteq> ''true''"
  proof
    assume "s = ''true''"
    with assms have "isdecimal (CHR ''t'')" by simp
    then show False using isdecimal_facts(5) by blast
  qed
  show "s \<noteq> ''false''"
  proof
    assume "s = ''false''"
    with assms have "isdecimal (CHR ''f'')" by simp
    then show False using isdecimal_facts(6) by blast
  qed
  show "\<not> prefix ''['' s"
  proof
    assume "prefix ''['' s"
    then obtain r where "s = CHR ''['' # r" by (auto simp: prefix_def)
    with assms have "isdecimal (CHR ''['')" by simp
    then show False using isdecimal_facts(4) by blast
  qed
qed

lemma parse_value_int: "0 \<le> n \<Longrightarrow> parse_value (str_int n) = Inr (VInt n)"
proof -
  assume n: "0 \<le> n"
  let ?s = "str_nat (nat n)"
  have "parse_value ?s = Inr (VInt (int (nat n)))"
    unfolding parse_value_def Let_def str_nat_strip str_nat_lower
    using decimal_not_word [OF str_nat_decimal, of "nat n"]
    by (simp add: isdigit_str_str_nat py_int_str_nat)
  with n show ?thesis by (simp add: str_int_def)
qed

lemma parse_value_true: "parse_value ''true'' = Inr (VBool True)"
  by code_simp

lemma parse_value_false: "parse_value ''false'' = Inr (VBool False)"
  by code_simp

lemma parse_value_bool: "parse_value (if b then ''true'' else ''false'') = Inr (VBool b)"
  by (cases b) (simp_all only: if_True if_False parse_value_true parse_value_false)

lemma trimmed_strip: "trimmed s \<Longrightarrow> strip s = s"
  by (simp add: trimmed_def strip_id)

lemma parse_value_str: "str_ok s \<Longrightarrow> parse_value s = Inr (VStr s)"
  unfolding parse_value_def Let_def str_ok_def
  by (simp add: trimmed_strip del: set_simps)

section \<open>Decoding what the encoder writes: lists and values\<close>

lemma two_char_sep_before:
  assumes ne: "c1 \<noteq> c2" and nc: "\<not> contains [c1, c2] a" and p: "p < length a"
  shows "\<not> prefix [c1, c2] (drop p (a @ [c1, c2] @ rest))"
proof
  assume pr: "prefix [c1, c2] (drop p (a @ [c1, c2] @ rest))"
  define X where "X = [c1, c2] @ rest"
  from p obtain x t where d: "drop p a = x # t" by (cases "drop p a") auto
  from p have "drop p (a @ X) = drop p a @ X" by simp
  then have e: "drop p (a @ X) = x # t @ X" by (simp only: d append_Cons)
  from pr have "prefix [c1, c2] (drop p (a @ X))" by (simp only: X_def)
  then have pr': "prefix [c1, c2] (x # t @ X)" by (simp only: e)
  show False
  proof (cases t)
    case Nil
    with pr' have "c2 = c1" by (auto simp: X_def)
    with ne show False by simp
  next
    case (Cons y t')
    with pr' have "c1 = x" and "c2 = y" by auto
    with d Cons have "prefix [c1, c2] (drop p a)" by simp
    moreover from p have "p \<le> length a" by simp
    ultimately have "contains [c1, c2] a" unfolding contains_iff by blast
    with nc show False by simp
  qed
qed

lemma split_join_two_char:
  assumes ne: "c1 \<noteq> c2"
  shows "ps \<noteq> [] \<Longrightarrow> \<forall>a \<in> set ps. \<not> contains [c1, c2] a \<Longrightarrow>
         split_str [c1, c2] (join [c1, c2] ps) = ps"
proof (induction ps)
  case Nil
  then show ?case by simp
next
  case (Cons a ps)
  show ?case
  proof (cases "ps = []")
    case True
    with Cons.prems show ?thesis by (simp add: split_str_no_sep)
  next
    case False
    from Cons.prems have nc: "\<not> contains [c1, c2] a" by simp
    have "split_str [c1, c2] (a @ [c1, c2] @ join [c1, c2] ps) = a # split_str [c1, c2] (join [c1, c2] ps)"
      by (rule split_str_append_sep) (rule two_char_sep_before [OF ne nc])
    with False Cons show ?thesis by (simp add: join_Cons)
  qed
qed

lemma split_once_key_value:
  assumes ne: "c1 \<noteq> c2" and nc: "\<not> contains [c1, c2] k"
  shows "split_once [c1, c2] (k @ [c1, c2] @ f) = [k, f]"
    and "contains [c1, c2] (k @ [c1, c2] @ f)"
proof -
  have "find_sub [c1, c2] (k @ [c1, c2] @ f) = Some (length k)"
    by (rule find_sub_append_sep) (rule two_char_sep_before [OF ne nc])
  then show "split_once [c1, c2] (k @ [c1, c2] @ f) = [k, f]"
    and "contains [c1, c2] (k @ [c1, c2] @ f)"
    by (simp_all add: split_once_def contains_def)
qed

lemma strip_Nil: "strip [] = []"
  by (simp add: strip_def lstrip_def rstrip_def)

lemma not_contains_Nil: "\<not> contains (x # xs) []"
  by (simp add: contains_def)

lemma elem_ok_AStr: "elem_ok a \<Longrightarrow> a = AStr (py_str a) \<and> trimmed (py_str a) \<and> \<not> contains '', '' (py_str a)"
  by (cases a) simp_all

lemma parse_value_list:
  assumes "list_all elem_ok xs"
  shows "parse_value (format_value (VList xs) indent) = Inr (VList xs)"
proof -
  define es where "es = map py_str xs"
  from assms have xs: "map AStr es = xs" unfolding es_def
    by (induction xs) (simp_all add: elem_ok_AStr [THEN conjunct1, symmetric])
  from assms have tr: "\<forall>e \<in> set es. trimmed e" and nc: "\<forall>e \<in> set es. \<not> contains '', '' e"
    unfolding es_def by (auto simp: list_all_iff dest: elem_ok_AStr)
  have "filter (\<lambda>p. p \<noteq> []) (map strip (split_str '', '' (join '', '' es))) = es"
  proof (cases "es = []")
    case True
    then show ?thesis by (simp add: split_str_no_sep not_contains_Nil strip_Nil)
  next
    case False
    have sp: "split_str '', '' (join '', '' es) = es"
      by (rule split_join_two_char [OF _ False nc]) simp
    have st: "map strip es = es"
      using tr by (intro map_idI) (auto simp: trimmed_strip)
    have fl: "filter (\<lambda>p. p \<noteq> []) es = es"
      using tr by (intro filter_True) (auto simp: trimmed_def)
    show ?thesis by (simp only: sp st fl)
  qed
  with xs show ?thesis
    using parse_value_brackets [of "join '', '' es"] by (simp add: es_def [symmetric])
qed

lemma val_ok_parse: "val_ok v \<Longrightarrow> parse_value (format_value v indent) = Inr v"
  by (cases v) (simp_all add: parse_value_str parse_value_int parse_value_bool parse_value_list
      del: format_value.simps(1))

lemma elem_ok_nl_free: "elem_ok a \<Longrightarrow> atom_nl_free a"
  by (cases a) (simp_all add: trimmed_def)

lemma val_ok_nl_free: "val_ok v \<Longrightarrow> val_nl_free v"
  by (cases v) (auto simp: str_ok_def trimmed_def list_all_iff elem_ok_nl_free)

lemma val_ok_not_dict: "val_ok v \<Longrightarrow> \<not> is_dict v"
  by (cases v) simp_all

lemma last_chars: "\<not> isspace (CHR ''e'')" "\<not> isspace (CHR '':'')"
  by (simp_all add: isspace_def)

lemma val_ok_format:
  assumes "val_ok v"
  shows "format_value v indent \<noteq> []" and "\<not> isspace (last (format_value v indent))"
proof -
  show "format_value v indent \<noteq> []" using assms
    by (cases v) (simp_all add: str_ok_def trimmed_def str_int_def str_nat_nonempty)
  show "\<not> isspace (last (format_value v indent))" using assms
    by (cases v) (simp_all add: str_ok_def trimmed_def str_int_def str_nat_hd_last
        isdecimal_facts last_chars not_space_brackets)
qed

section \<open>Decoding what the encoder writes: lines and blocks\<close>

lemma record_lines_flat: "list_all field_ok r \<Longrightarrow> record_lines r = map field_line r"
  by (induction r rule: record_lines.induct) (simp_all add: field_line_def val_ok_not_dict)

lemma field_line_facts:
  assumes "field_ok kv"
  shows "field_line kv \<noteq> []" and "\<not> isspace (hd (field_line kv))"
    and "\<not> isspace (last (field_line kv))" and "NL \<notin> set (field_line kv)"
    and "contains '': '' (field_line kv)"
    and "split_once '': '' (field_line kv) = [fst kv, format_value (snd kv) 0]"
proof -
  obtain k v where kv: "kv = (k, v)" by (cases kv)
  define f where "f = format_value v 0"
  from assms kv have k: "key_ok k" and v: "val_ok v" by simp_all
  have l: "field_line kv = k @ '': '' @ f" by (simp add: field_line_def kv f_def)
  from val_ok_format [OF v, of 0] have fne: "f \<noteq> []" and fl: "\<not> isspace (last f)"
    by (simp_all add: f_def)
  show "field_line kv \<noteq> []" by (simp add: l)
  show "\<not> isspace (hd (field_line kv))"
    using k by (cases k) (simp_all add: l key_ok_def last_chars)
  show "\<not> isspace (last (field_line kv))" using fne fl by (simp add: l)
  have "NL \<notin> set f" unfolding f_def
    by (rule scalar_nl_free [OF val_ok_not_dict [OF v] val_ok_nl_free [OF v]])
  with k show "NL \<notin> set (field_line kv)" by (simp add: l key_ok_def NL_not_dash)
  from k have nc: "\<not> contains '': '' k" by (simp add: key_ok_def)
  have ne: "CHR '':'' \<noteq> CHR '' ''" by simp
  from split_once_key_value [OF ne nc, of f]
  show "contains '': '' (field_line kv)"
    and "split_once '': '' (field_line kv) = [fst kv, format_value (snd kv) 0]"
    by (simp_all add: field_line_def kv f_def)
qed

lemma field_line_strip:
  assumes "field_ok kv"
  shows "strip (field_line kv) = field_line kv" and "indent_of (field_line kv) = 0"
proof -
  show "strip (field_line kv) = field_line kv"
    by (rule strip_id) (rule field_line_facts [OF assms])+
  have "lstrip (field_line kv) = field_line kv" unfolding lstrip_def
    by (rule dropWhile_self) (rule field_line_facts [OF assms])+
  then show "indent_of (field_line kv) = 0" by (simp add: indent_of_def)
qed

lemma update_fresh: "k \<notin> fst ` set al \<Longrightarrow> AList.update k v al = al @ [(k, v)]"
  by (induction al) auto

lemma fold_update_distinct:
  "distinct (map fst (res @ r)) \<Longrightarrow>
   fold (\<lambda>kv. AList.update (fst kv) (snd kv)) r res = res @ r"
proof (induction r arbitrary: res)
  case Nil
  then show ?case by simp
next
  case (Cons kv r)
  from Cons.prems have fresh: "fst kv \<notin> fst ` set res" by auto
  have "AList.update (fst kv) (snd kv) res = res @ [kv]"
    using update_fresh [OF fresh, of "snd kv"] by simp
  moreover from Cons.prems have "distinct (map fst ((res @ [kv]) @ r))" by simp
  ultimately show ?case using Cons.IH [of "res @ [kv]"] by simp
qed

lemma parse_loop_flat:
  assumes ok: "list_all field_ok r"
  shows "i \<le> length r \<Longrightarrow>
    parse_loop (map field_line r) 0 i res =
      Inr (fold (\<lambda>kv. AList.update (fst kv) (snd kv)) (drop i r) res, length r)"
proof (induction "length r - i" arbitrary: i res)
  case 0
  then have "i = length r" by simp
  then show ?case by (simp add: parse_loop_end)
next
  case (Suc n)
  then have inb: "i < length r" by simp
  define kv where "kv = r ! i"
  define lines where "lines = map field_line r"
  from ok inb have fo: "field_ok kv" by (simp add: kv_def list_all_length)
  from inb have li: "lines ! i = field_line kv" by (simp add: lines_def kv_def)
  from inb have len: "i < length lines" by (simp add: lines_def)
  note ff = field_line_facts [OF fo] field_line_strip [OF fo]
  have step: "parse_loop lines 0 i res =
      parse_loop lines 0 (i + 1) (AList.update (fst kv) (snd kv) res)"
    using len
    by (subst parse_loop_key_value)
       (simp_all add: li ff val_ok_parse fo [unfolded field_ok.simps [of "fst kv" "snd kv", simplified]])
  from Suc.hyps(2) inb have "n = length r - (i + 1)" by simp
  from Suc.hyps(1) [OF this, of "AList.update (fst kv) (snd kv) res"] inb
  have "parse_loop lines 0 (i + 1) (AList.update (fst kv) (snd kv) res) =
      Inr (fold (\<lambda>kv. AList.update (fst kv) (snd kv)) (drop (i + 1) r)
             (AList.update (fst kv) (snd kv) res), length r)"
    by (simp add: lines_def)
  moreover from inb have "drop i r = kv # drop (i + 1) r"
    by (simp add: kv_def Cons_nth_drop_Suc)
  ultimately show ?case using step by (simp add: lines_def)
qed

lemma join_hd: "ps \<noteq> [] \<Longrightarrow> hd ps \<noteq> [] \<Longrightarrow> join sep ps \<noteq> [] \<and> hd (join sep ps) = hd (hd ps)"
proof (cases ps)
  case Nil
  assume "ps \<noteq> []"
  with Nil show ?thesis by simp
next
  case (Cons p qs)
  assume "hd ps \<noteq> []"
  with Cons show ?thesis by (cases qs) simp_all
qed

lemma join_nonempty: "ps \<noteq> [] \<Longrightarrow> last ps \<noteq> [] \<Longrightarrow> join sep ps \<noteq> []"
  by (induction sep ps rule: join.induct) simp_all

lemma join_last: "ps \<noteq> [] \<Longrightarrow> last ps \<noteq> [] \<Longrightarrow> last (join sep ps) = last (last ps)"
proof (induction sep ps rule: join.induct)
  case (3 sep p q ps)
  from "3.prems" have "join sep (q # ps) \<noteq> []" by (intro join_nonempty) simp_all
  with 3 show ?case by simp
qed simp_all

lemma block_facts:
  assumes "record_ok r"
  shows "split_str [NL] (record_block r) = map field_line r"
    and "record_block r \<noteq> []" and "\<not> isspace (hd (record_block r))"
    and "\<not> isspace (last (record_block r))"
proof -
  from assms have ne: "r \<noteq> []" and ok: "list_all field_ok r" by (simp_all add: record_ok_def)
  define ls where "ls = map field_line r"
  have b: "record_block r = join [NL] ls"
    by (simp add: record_block_def record_lines_flat [OF ok] ls_def)
  from ne have lne: "ls \<noteq> []" by (simp add: ls_def)
  from ok have all: "\<forall>l \<in> set ls. l \<noteq> [] \<and> \<not> isspace (hd l) \<and> \<not> isspace (last l) \<and> NL \<notin> set l"
    by (auto simp: ls_def list_all_iff field_line_facts)
  from lne all have h: "hd ls \<noteq> []" "\<not> isspace (hd (hd ls))"
    and la: "last ls \<noteq> []" "\<not> isspace (last (last ls))"
    by (simp_all add: hd_in_set)
  from all have "\<forall>l \<in> set ls. NL \<notin> set l" by blast
  from split_char_join_free [OF lne this]
  show "split_str [NL] (record_block r) = map field_line r" by (simp add: b ls_def)
  from join_hd [OF lne h(1), of "[NL]"] h(2)
  show "record_block r \<noteq> []" and "\<not> isspace (hd (record_block r))" by (simp_all add: b)
  from join_last [OF lne la(1), of "[NL]"] la(2)
  show "\<not> isspace (last (record_block r))" by (simp add: b)
qed

lemma chunk_mapping_block:
  assumes "record_ok r"
  shows "chunk_mapping (record_block r) = Inr r"
proof -
  from assms have ne: "r \<noteq> []" and ok: "list_all field_ok r" and di: "distinct (map fst r)"
    by (simp_all add: record_ok_def)
  note bf = block_facts [OF assms]
  have st: "strip (record_block r) = record_block r" by (rule strip_id) (rule bf)+
  from ne ok have "field_ok (r ! 0)" by (simp add: list_all_length)
  from field_line_strip(2) [OF this] ne
  have ei: "entry_indent (map field_line r) 0 = 0" by (simp add: entry_indent_def)
  have "parse_lines (map field_line r) 0 = Inr (r, length r)"
    using parse_loop_flat [OF ok, of 0 "[]"] fold_update_distinct [of "[]" r] di
    by (simp add: parse_lines_def ei)
  then show ?thesis by (simp add: chunk_mapping_def st bf(1))
qed

section \<open>Decoding what the encoder writes: datasets\<close>

lemma split_str_SEP_append:
  assumes "\<And>p. p < length a \<Longrightarrow> \<not> occurs_at SEP (a @ SEP @ rest) p"
  shows "split_str SEP (a @ SEP @ rest) = a # split_str SEP rest"
proof -
  have e: "NL # tl SEP = SEP" by (simp add: SEP_def)
  have "split_str (NL # tl SEP) (a @ (NL # tl SEP) @ rest) = a # split_str (NL # tl SEP) rest"
    by (rule split_str_append_sep) (use assms in \<open>simp add: e occurs_at_def\<close>)
  then show ?thesis by (simp only: e)
qed

lemma split_str_SEP_single:
  assumes "''--------'' \<notin> set (split_str [NL] b)"
  shows "split_str SEP b = [b]"
proof -
  have e: "NL # tl SEP = SEP" by (simp add: SEP_def)
  have "\<not> contains SEP b"
    using no_sep_inside [OF assms] by (simp add: contains_iff occurs_at_def)
  then have "split_str (NL # tl SEP) b = [b]"
    by (intro split_str_no_sep) (simp add: e)
  then show ?thesis by (simp only: e)
qed

lemma split_join_SEP:
  "ps \<noteq> [] \<Longrightarrow> \<forall>b \<in> set ps. ''--------'' \<notin> set (split_str [NL] b) \<Longrightarrow>
   split_str SEP (join SEP ps) = ps"
proof (induction ps)
  case Nil
  then show ?case by simp
next
  case (Cons b ps)
  from Cons.prems have nd: "''--------'' \<notin> set (split_str [NL] b)" by simp
  show ?case
  proof (cases "ps = []")
    case True
    with nd show ?thesis by (simp add: split_str_SEP_single)
  next
    case False
    have "split_str SEP (b @ SEP @ join SEP ps) = b # split_str SEP (join SEP ps)"
      by (rule split_str_SEP_append) (rule no_sep_before [OF nd])
    with False Cons show ?thesis by (simp add: join_Cons)
  qed
qed

lemma record_ok_nl_free: "record_ok r \<Longrightarrow> fields_nl_free r"
proof -
  assume "record_ok r"
  then have "list_all field_ok r" by (simp add: record_ok_def)
  then show "fields_nl_free r"
    by (induction r) (auto simp: key_ok_def val_ok_nl_free)
qed

section \<open>Separator exactness\<close>

text \<open>
  Claim C5, as the code has it. The encoder escapes nothing, so the separator may occur
  inside a value. For records whose keys, strings and list elements contain no newline:
  the encoding of two records is the first block, the separator and the second block,
  and the separator occurs in it at exactly one index, the end of the first block (so
  neither before the first block nor after the last); the encoding of one record
  contains no occurrence of the separator.
\<close>

theorem separator_between_blocks:
  "fields_nl_free r \<and> fields_nl_free r1 \<and> fields_nl_free r2 \<longrightarrow>
     dict_to_toon [r1, r2] = record_block r1 @ SEP @ record_block r2
     \<and> (occurs_at SEP (dict_to_toon [r1, r2]) p \<longleftrightarrow> p = length (record_block r1))
     \<and> \<not> occurs_at SEP (dict_to_toon [r]) p"
  using sep_unique [OF record_block_no_dashes record_block_no_dashes, of r1 r2 p]
    no_sep_inside [OF record_block_no_dashes, of r p]
  by (simp add: dict_to_toon_def)

theorem separator_between_blocks_witness:
  "fields_nl_free [(''name'', VStr ''Jenil'')]
   \<and> fields_nl_free [(''a'', VInt 1), (''tags'', VList [AStr ''x'', AStr ''y''])]
   \<and> fields_nl_free [(''b'', VObj [(''c'', VBool True)])]
   \<and> dict_to_toon [[(''a'', VInt 1), (''tags'', VList [AStr ''x'', AStr ''y''])],
                    [(''b'', VObj [(''c'', VBool True)])]]
      = record_block [(''a'', VInt 1), (''tags'', VList [AStr ''x'', AStr ''y''])] @ SEP
        @ record_block [(''b'', VObj [(''c'', VBool True)])]
   \<and> occurs_at SEP
        (dict_to_toon [[(''a'', VInt 1), (''tags'', VList [AStr ''x'', AStr ''y''])],
                       [(''b'', VObj [(''c'', VBool True)])]])
        (length (record_block [(''a'', VInt 1), (''tags'', VList [AStr ''x'', AStr ''y''])]))
   \<and> \<not> occurs_at SEP (dict_to_toon [[(''name'', VStr ''Jenil'')]]) 0"
proof -
  have h: "fields_nl_free [(''name'', VStr ''Jenil'')]
     \<and> fields_nl_free [(''a'', VInt 1), (''tags'', VList [AStr ''x'', AStr ''y''])]
     \<and> fields_nl_free [(''b'', VObj [(''c'', VBool True)])]"
    by code_simp
  from h separator_between_blocks
      [of "[(''name'', VStr ''Jenil'')]"
          "[(''a'', VInt 1), (''tags'', VList [AStr ''x'', AStr ''y''])]"
          "[(''b'', VObj [(''c'', VBool True)])]"
          "length (record_block [(''a'', VInt 1), (''tags'', VList [AStr ''x'', AStr ''y''])])"]
    separator_between_blocks
      [of "[(''name'', VStr ''Jenil'')]"
          "[(''a'', VInt 1), (''tags'', VList [AStr ''x'', AStr ''y''])]"
          "[(''b'', VObj [(''c'', VBool True)])]" 0]
  show ?thesis by blast
qed

text \<open>
  The claim as worded covers every dataset. The one-record dataset whose only value is
  the string \<open>a\<close>, the separator, \<open>b\<close> is encoded with the separator inside, at
  index 4.
\<close>

theorem separator_inside_value_counterexample:
  "occurs_at SEP (dict_to_toon [[(''k'', VStr (''a'' @ SEP @ ''b''))]]) 4"
  by code_simp

section \<open>Round trip on scalar data\<close>

text \<open>
  Claim C1, as the code has it. For every dataset of non-empty records with distinct
  keys whose fields are strings, non-negative integers, booleans and lists of strings,
  where keys have no newline, no colon-space and no leading white space, string values
  are trimmed one-line texts that are not bracketed, not a casing of true or false and
  not digit-only, and list elements are trimmed one-line texts without comma-space:
  decoding the encoding gives the dataset back, records and fields in the same order.
  A colon-space inside a string value does no harm.
\<close>

theorem scalar_round_trip:
  "list_all record_ok d \<Longrightarrow> toon_to_dict (dict_to_toon d) = Inr d"
proof (cases "d = []")
  case True
  then show ?thesis by (simp add: encode_empty decode_empty)
next
  case False
  assume all: "list_all record_ok d"
  define blocks where "blocks = map record_block d"
  from False have bne: "blocks \<noteq> []" by (simp add: blocks_def)
  from all have ok: "\<forall>r \<in> set d. record_ok r" by (simp add: list_all_iff)
  then have bf: "\<forall>b \<in> set blocks. b \<noteq> [] \<and> \<not> isspace (hd b) \<and> \<not> isspace (last b)
        \<and> ''--------'' \<notin> set (split_str [NL] b)"
    by (auto simp: blocks_def block_facts(2-4) record_block_no_dashes record_ok_nl_free)
  from bne bf have h: "hd blocks \<noteq> []" "\<not> isspace (hd (hd blocks))"
    and l: "last blocks \<noteq> []" "\<not> isspace (last (last blocks))"
    by (simp_all add: hd_in_set)
  have st: "strip (join SEP blocks) = join SEP blocks"
    using join_hd [OF bne h(1), of SEP] join_last [OF bne l(1), of SEP] h(2) l(2)
    by (intro strip_id) simp_all
  have sp: "split_str SEP (join SEP blocks) = blocks"
    using bf by (intro split_join_SEP [OF bne]) blast
  have "map chunk_mapping blocks = map Inr d"
    using ok by (simp add: blocks_def chunk_mapping_block)
  from collect_records_ok [OF this, of "[]"]
  have "collect_records blocks [] = Inr (filter (\<lambda>m. m \<noteq> []) d)" by simp
  moreover from ok have "filter (\<lambda>m. m \<noteq> []) d = d"
    by (intro filter_True) (auto simp: record_ok_def)
  ultimately show ?thesis
    by (simp add: toon_to_dict_def dict_to_toon_def blocks_def [symmetric] st sp)
qed

theorem scalar_round_trip_witness:
  "list_all record_ok
     [[(''name'', VStr ''Jenil''), (''role'', VStr ''Lead: Dev''),
       (''skills'', VList [AStr ''C#'', AStr ''.NET'', AStr ''Angular'']),
       (''active'', VBool True), (''experience'', VInt 4)],
      [(''name'', VStr ''Sarah''), (''skills'', VList []), (''active'', VBool False)]]
   \<and> toon_to_dict (dict_to_toon
     [[(''name'', VStr ''Jenil''), (''role'', VStr ''Lead: Dev''),
       (''skills'', VList [AStr ''C#'', AStr ''.NET'', AStr ''Angular'']),
       (''active'', VBool True), (''experience'', VInt 4)],
      [(''name'', VStr ''Sarah''), (''skills'', VList []), (''active'', VBool False)]])
     = Inr
     [[(''name'', VStr ''Jenil''), (''role'', VStr ''Lead: Dev''),
       (''skills'', VList [AStr ''C#'', AStr ''.NET'', AStr ''Angular'']),
       (''active'', VBool True), (''experience'', VInt 4)],
      [(''name'', VStr ''Sarah''), (''skills'', VList []), (''active'', VBool False)]]"
proof -
  have h: "list_all record_ok
     [[(''name'', VStr ''Jenil''), (''role'', VStr ''Lead: Dev''),
       (''skills'', VList [AStr ''C#'', AStr ''.NET'', AStr ''Angular'']),
       (''active'', VBool True), (''experience'', VInt 4)],
      [(''name'', VStr ''Sarah''), (''skills'', VList []), (''active'', VBool False)]]"
    by code_simp
  from h scalar_round_trip [OF h] show ?thesis by (rule conjI)
qed

text \<open>
  The claim as worded excludes only digit-only strings and values with a colon-space.
  A record whose only field is the empty string decodes to a record whose field is an
  empty object, and a string with a trailing space comes back without it.
\<close>

theorem scalar_round_trip_counterexample:
  "toon_to_dict (dict_to_toon [[(''note'', VStr [])]]) = Inr [[(''note'', VObj [])]]
   \<and> toon_to_dict (dict_to_toon [[(''note'', VStr [])]]) \<noteq> Inr [[(''note'', VStr [])]]
   \<and> toon_to_dict (dict_to_toon [[(''name'', VStr ''Jenil '')]]) = Inr [[(''name'', VStr ''Jenil'')]]
   \<and> toon_to_dict (dict_to_toon [[(''name'', VStr ''Jenil '')]]) \<noteq> Inr [[(''name'', VStr ''Jenil '')]]"
  by code_simp

end
